theory Spec2Isabelle
  imports Main "HOL-Library.Word"
begin

unbundle bit_operations_syntax

section \<open>Machine types\<close>

text \<open>
  \<open>unsigned char\<close> and \<open>uint8_t\<close> are 8-bit words; \<open>unsigned __int64\<close>,
  \<open>unsigned long long\<close> and \<open>uint64_t\<close> are 64-bit words. Both headers are written for
  the 64-bit Windows tool chain (\<open>unsigned __int64\<close>, \<open>__forceinline\<close>), where \<open>size_t\<close>
  is 64 bits wide as well. An \<open>unsigned char\<close> operand of \<open>+\<close>, \<open>-\<close>, \<open>~\<close>, \<open>%\<close>,
  \<open><<\<close> or \<open>>>\<close> is promoted to the 32-bit \<open>int\<close>; \<open>cint\<close> holds the two's complement
  pattern of such an \<open>int\<close>. Every value promoted here lies in \<open>0..255\<close>, no operation on
  them leaves the range of \<open>int\<close>, and every result is cast back to \<open>unsigned char\<close>,
  which keeps the low 8 bits of the pattern. The code unit type \<open>CharT\<close> is a
  word of any width \<open>'c\<close>: 8 bits for \<open>char\<close>, 16 bits for \<open>wchar_t\<close>; a \<open>static_cast\<close>
  between it and \<open>unsigned char\<close> is \<open>ucast\<close> (truncation, or zero extension).
\<close>

type_synonym u8 = "8 word"
type_synonym u64 = "64 word"
type_synonym cint = "32 word"

datatype fault = DivideByZero

section \<open>The rotation macros\<close>

text \<open>
  \<open>#define ROL8(x, r) ((unsigned char)(((x) << ((r) % 8)) | ((x) >> (8 - ((r) % 8)))))\<close>
  \<open>#define ROR8(x, r) ((unsigned char)(((x) >> ((r) % 8)) | ((x) << (8 - ((r) % 8)))))\<close>
  The macros shift \<open>x\<close> at the width of its (promoted) type and cast to 8 bits at the end.
\<close>

definition ROL8 :: "'a::len word \<Rightarrow> 'b::len word \<Rightarrow> u8" where
  "ROL8 x r = ucast (push_bit (unat (r mod 8)) x OR drop_bit (8 - unat (r mod 8)) x)"

definition ROR8 :: "'a::len word \<Rightarrow> 'b::len word \<Rightarrow> u8" where
  "ROR8 x r = ucast (drop_bit (unat (r mod 8)) x OR push_bit (8 - unat (r mod 8)) x)"

section \<open>KeyGen (secure\_string.hpp)\<close>

definition mix :: "u64 \<Rightarrow> u64" where
  "mix x0 =
     (let x = x0 XOR drop_bit 33 x0;
          x = x * 0xD6E8FEB86659FD93;
          x = x XOR drop_bit 33 x;
          x = x * 0xA5CB3E2C1F16F4C5
      in x XOR drop_bit 33 x)"

definition magic :: u64 where
  "magic = 0x3C6EF372FE94F82B"

text \<open>The value of \<open>val\<close> after line 44 of \<open>get_byte\<close>: the two halves XOR-ed together.\<close>

definition get_byte_val :: "u64 \<Rightarrow> u64 \<Rightarrow> u64 \<Rightarrow> u64" where
  "get_byte_val Seed Round index =
     (let val = Seed XOR (index * magic);
          val = mix val XOR (Round * 0x0F1E2D3C4B5A6978)
      in drop_bit 32 val XOR (val AND 0xFFFFFFFF))"

definition get_byte :: "u64 \<Rightarrow> u64 \<Rightarrow> u64 \<Rightarrow> u8" where
  "get_byte Seed Round index =
     (let val = get_byte_val Seed Round index
      in ucast (val XOR drop_bit 16 val XOR drop_bit 8 val))"

text \<open>The second argument that \<open>get\<close> passes to \<open>ROL8\<close>.\<close>

definition get_rot :: "u64 \<Rightarrow> u64 \<Rightarrow> u64" where
  "get_rot Round index = (index + Round) mod 8 + 1"

definition get :: "u64 \<Rightarrow> u64 \<Rightarrow> u64 \<Rightarrow> u64 \<Rightarrow> u8" where
  "get N Seed Round index =
     (let k = get_byte Seed Round index XOR get_byte Seed Round (N - index - 1 + Round)
      in ROL8 (ucast k XOR index XOR (Seed AND 0xFF)) (get_rot Round index))"

section \<open>SecureString (secure\_string.hpp)\<close>

text \<open>
  \<open>(i * i) % N\<close> divides by \<open>N\<close>; a zero divisor is the fault \<open>DivideByZero\<close>.
  XOR of two bytes is the same before and after promotion, so it is written on \<open>u8\<close>.
\<close>

definition obfuscate :: "u64 \<Rightarrow> u64 \<Rightarrow> 'c::len word \<Rightarrow> u64 \<Rightarrow> fault + 'c word" where
  "obfuscate N Seed c i =
     (if N = 0 then Inl DivideByZero
      else
        let k1 = get N Seed 0 i;
            k2 = get N (Seed XOR 0xBAADF00DDEADC0DE) 0 (N - i - 1);
            k3 = get N (Seed XOR 0xFEEDBABECAFED00D) 0 ((i * i) mod N);
            tmp = (ucast c :: u8) XOR k1;
            tmp = ROL8 (ucast tmp :: cint) ((ucast k2 :: cint) mod 7 + 1);
            tmp = (ucast (NOT ((ucast tmp :: cint) + ucast (k2 XOR k3))) :: u8);
            tmp = tmp XOR 0xA5;
            tmp = ROR8 (ucast tmp :: cint) ((i + ucast k3) mod 8)
        in Inr (ucast tmp))"

definition deobfuscate :: "u64 \<Rightarrow> u64 \<Rightarrow> 'c::len word \<Rightarrow> u64 \<Rightarrow> fault + 'c word" where
  "deobfuscate N Seed c i =
     (if N = 0 then Inl DivideByZero
      else
        let k1 = get N Seed 0 i;
            k2 = get N (Seed XOR 0xBAADF00DDEADC0DE) 0 (N - i - 1);
            k3 = get N (Seed XOR 0xFEEDBABECAFED00D) 0 ((i * i) mod N);
            tmp = (ucast c :: u8);
            tmp = ROL8 (ucast tmp :: cint) ((i + ucast k3) mod 8);
            tmp = tmp XOR 0xA5;
            tmp = (ucast (NOT (ucast tmp :: cint) - ucast (k2 XOR k3)) :: u8);
            tmp = ROR8 (ucast tmp :: cint) ((ucast k2 :: cint) mod 7 + 1);
            tmp = tmp XOR k1
        in Inr (ucast tmp))"


text \<open>
  The constructor fills \<open>encrypted\<close> (value-initialised by \<open>encrypted{}\<close>) in a loop;
  \<open>input\<close> is a reference to an array of exactly \<open>N\<close> units. The loop is the same text in
  both headers, so it takes the variant's \<open>obfuscate\<close> as \<open>ob\<close>.
\<close>

function SecureString_loop ::
  "('c::len word \<Rightarrow> u64 \<Rightarrow> fault + 'c word) \<Rightarrow> u64 \<Rightarrow> 'c word list \<Rightarrow> u64 \<Rightarrow> 'c word list
     \<Rightarrow> fault + 'c word list" where
  "SecureString_loop ob N input i encrypted =
     (if i < N then
        (case ob (input ! unat i) i of
           Inl e \<Rightarrow> Inl e
         | Inr v \<Rightarrow> SecureString_loop ob N input (i + 1) (encrypted[unat i := v]))
      else Inr encrypted)"
  by pat_completeness auto
termination
proof (relation "measure (\<lambda>(ob, N, input, i, encrypted). unat N - unat i)")
  show "wf (measure (\<lambda>(ob, N, input, i, encrypted). unat N - unat i))"
    by simp
next
  fix ob :: "'c word \<Rightarrow> u64 \<Rightarrow> fault + 'c word"
  fix N i :: u64 and input encrypted :: "'c word list" and v :: "'c word"
  assume lt: "i < N"
  have below: "unat i < unat N" using lt by (simp add: word_less_nat_alt)
  have "unat N < 2 ^ LENGTH(64)" by (rule unsigned_less)
  with below have "Suc (unat i) < 2 ^ LENGTH(64)" by linarith
  then have "unat (i + 1) = Suc (unat i)"
    by (simp add: unat_word_ariths take_bit_nat_eq_self unsigned_of_nat flip: take_bit_eq_mod)
  with below show "((ob, N, input, i + 1, encrypted[unat i := v]), (ob, N, input, i, encrypted))
      \<in> measure (\<lambda>(ob, N, input, i, encrypted). unat N - unat i)"
    by simp
qed

definition SecureString :: "u64 \<Rightarrow> u64 \<Rightarrow> 'c::len word list \<Rightarrow> fault + 'c word list" where
  "SecureString N Seed input =
     SecureString_loop (obfuscate N Seed) N input 0 (replicate (unat N) 0)"

text \<open>
  \<open>decrypt\<close> reads the object's array and writes through the pointer \<open>out\<close>. Memory is a
  store of code units; \<open>this\<close> is the address of \<open>encrypted[0]\<close>, \<open>out\<close> the address the
  caller passes, both counted in code units.
\<close>

type_synonym 'c mem = "nat \<Rightarrow> 'c word"

function decrypt_loop ::
  "('c::len word \<Rightarrow> u64 \<Rightarrow> fault + 'c word) \<Rightarrow> u64 \<Rightarrow> nat \<Rightarrow> nat \<Rightarrow> u64 \<Rightarrow> 'c mem
     \<Rightarrow> fault + 'c mem" where
  "decrypt_loop deob N this out i mem =
     (if i < N then
        (case deob (mem (this + unat i)) i of
           Inl e \<Rightarrow> Inl e
         | Inr v \<Rightarrow> decrypt_loop deob N this out (i + 1) (mem (out + unat i := v)))
      else Inr mem)"
  by pat_completeness auto
termination
proof (relation "measure (\<lambda>(deob, N, this, out, i, mem). unat N - unat i)")
  show "wf (measure (\<lambda>(deob, N, this, out, i, mem). unat N - unat i))"
    by simp
next
  fix deob :: "'c word \<Rightarrow> u64 \<Rightarrow> fault + 'c word"
  fix N i :: u64 and this out :: nat and mem :: "'c mem" and v :: "'c word"
  assume lt: "i < N"
  have below: "unat i < unat N" using lt by (simp add: word_less_nat_alt)
  have "unat N < 2 ^ LENGTH(64)" by (rule unsigned_less)
  with below have "Suc (unat i) < 2 ^ LENGTH(64)" by linarith
  then have "unat (i + 1) = Suc (unat i)"
    by (simp add: unat_word_ariths take_bit_nat_eq_self unsigned_of_nat flip: take_bit_eq_mod)
  with below show "((deob, N, this, out, i + 1, mem (out + unat i := v)), (deob, N, this, out, i, mem))
      \<in> measure (\<lambda>(deob, N, this, out, i, mem). unat N - unat i)"
    by simp
qed

definition decrypt :: "u64 \<Rightarrow> u64 \<Rightarrow> nat \<Rightarrow> nat \<Rightarrow> 'c::len mem \<Rightarrow> fault + 'c mem" where
  "decrypt N Seed this out mem = decrypt_loop (deobfuscate N Seed) N this out 0 mem"

definition size_SecureString :: "u64 \<Rightarrow> u64" where
  "size_SecureString N = N"

section \<open>The second header (SecureString.hpp)\<close>

text \<open>
  The definitions of \<open>SecureString.hpp\<close> carry the suffix \<open>_S\<close>. Its integer types are
  \<open>uint8_t\<close>, \<open>uint64_t\<close> and \<open>size_t\<close>.
\<close>

definition ROL8_S :: "'a::len word \<Rightarrow> 'b::len word \<Rightarrow> u8" where
  "ROL8_S x r = ucast (push_bit (unat (r mod 8)) x OR drop_bit (8 - unat (r mod 8)) x)"

definition ROR8_S :: "'a::len word \<Rightarrow> 'b::len word \<Rightarrow> u8" where
  "ROR8_S x r = ucast (drop_bit (unat (r mod 8)) x OR push_bit (8 - unat (r mod 8)) x)"

definition mix_S :: "u64 \<Rightarrow> u64" where
  "mix_S x0 =
     (let x = x0 XOR drop_bit 33 x0;
          x = x * 0xD6E8FEB86659FD93;
          x = x XOR drop_bit 33 x;
          x = x * 0xA5CB3E2C1F16F4C5
      in x XOR drop_bit 33 x)"

definition magic_S :: u64 where
  "magic_S = 0x3C6EF372FE94F82B"

definition get_byte_S :: "u64 \<Rightarrow> u64 \<Rightarrow> u64 \<Rightarrow> u8" where
  "get_byte_S Seed Round index =
     (let val = Seed XOR (index * magic_S);
          val = mix_S val XOR (Round * 0x0F1E2D3C4B5A6978);
          val = drop_bit 32 val XOR (val AND 0xFFFFFFFF)
      in ucast (val XOR drop_bit 16 val XOR drop_bit 8 val))"

definition get_S :: "u64 \<Rightarrow> u64 \<Rightarrow> u64 \<Rightarrow> u64 \<Rightarrow> u8" where
  "get_S N Seed Round index =
     (let k = get_byte_S Seed Round index XOR get_byte_S Seed Round (N - index - 1 + Round)
      in ROL8_S (ucast k XOR index XOR (Seed AND 0xFF)) ((index + Round) mod 8 + 1))"

definition obfuscate_S :: "u64 \<Rightarrow> u64 \<Rightarrow> 'c::len word \<Rightarrow> u64 \<Rightarrow> fault + 'c word" where
  "obfuscate_S N Seed c i =
     (if N = 0 then Inl DivideByZero
      else
        let k1 = get_S N Seed 0 i;
            k2 = get_S N (Seed XOR 0xBAADF00DDEADC0DE) 0 (N - i - 1);
            k3 = get_S N (Seed XOR 0xFEEDBABECAFED00D) 0 ((i * i) mod N);
            tmp = (ucast c :: u8) XOR k1;
            tmp = ROL8_S (ucast tmp :: cint) ((ucast k2 :: cint) mod 7 + 1);
            tmp = (ucast (NOT ((ucast tmp :: cint) + ucast (k2 XOR k3))) :: u8);
            tmp = tmp XOR 0x5A;
            tmp = ROR8_S (ucast tmp :: cint) ((i + ucast k3) mod 8)
        in Inr (ucast tmp))"

definition deobfuscate_S :: "u64 \<Rightarrow> u64 \<Rightarrow> 'c::len word \<Rightarrow> u64 \<Rightarrow> fault + 'c word" where
  "deobfuscate_S N Seed c i =
     (if N = 0 then Inl DivideByZero
      else
        let k1 = get_S N Seed 0 i;
            k2 = get_S N (Seed XOR 0xBAADF00DDEADC0DE) 0 (N - i - 1);
            k3 = get_S N (Seed XOR 0xFEEDBABECAFED00D) 0 ((i * i) mod N);
            tmp = (ucast c :: u8);
            tmp = ROL8_S (ucast tmp :: cint) ((i + ucast k3) mod 8);
            tmp = tmp XOR 0x5A;
            tmp = (ucast (NOT (ucast tmp :: cint) - ucast (k2 XOR k3)) :: u8);
            tmp = ROR8_S (ucast tmp :: cint) ((ucast k2 :: cint) mod 7 + 1);
            tmp = tmp XOR k1
        in Inr (ucast tmp))"



section \<open>The transform as the specification words it\<close>

text \<open>
  Section 4.2 of the specification: six stages over the 8-bit working value, all arithmetic
  modulo 256, with the stage-4 constant \<open>X\<close> a parameter. These definitions follow the
  specification, not the code; the code is compared with them below.
\<close>

definition rotate_left_8 :: "u8 \<Rightarrow> nat \<Rightarrow> u8" where
  "rotate_left_8 v n = word_rotl n v"

definition rotate_right_8 :: "u8 \<Rightarrow> nat \<Rightarrow> u8" where
  "rotate_right_8 v n = word_rotr n v"

definition spec_encode :: "u8 \<Rightarrow> u8 \<Rightarrow> nat \<Rightarrow> u8 \<Rightarrow> u8 \<Rightarrow> u8 \<Rightarrow> u8" where
  "spec_encode X c i keyA keyB keyC =
     (let v = c XOR keyA;
          v = rotate_left_8 v (unat keyB mod 7 + 1);
          v = NOT (v + (keyB XOR keyC));
          v = v XOR X;
          v = rotate_right_8 v ((i + unat keyC) mod 8)
      in v)"

definition spec_decode :: "u8 \<Rightarrow> u8 \<Rightarrow> nat \<Rightarrow> u8 \<Rightarrow> u8 \<Rightarrow> u8 \<Rightarrow> u8" where
  "spec_decode X c' i keyA keyB keyC =
     (let v = rotate_left_8 c' ((i + unat keyC) mod 8);
          v = v XOR X;
          v = NOT v - (keyB XOR keyC);
          v = rotate_right_8 v (unat keyB mod 7 + 1);
          v = v XOR keyA
      in v)"

text \<open>The byte lane \<open>k\<close> (bits \<open>8k\<close> to \<open>8k+7\<close>) of a 64-bit value.\<close>

definition byte_lane :: "nat \<Rightarrow> u64 \<Rightarrow> u8" where
  "byte_lane k v = ucast (drop_bit (8 * k) v)"

text \<open>
  The two seed offsets of section 4.2 and the two constants of section 4.1, under the
  names the specification gives them.
\<close>

definition K1 :: u64 where
  "K1 = 0xBAADF00DDEADC0DE"

definition K2 :: u64 where
  "K2 = 0xFEEDBABECAFED00D"

definition MAGIC :: u64 where
  "MAGIC = 0x3C6EF372FE94F82B"

definition ROUND_CONSTANT :: u64 where
  "ROUND_CONSTANT = 0x0F1E2D3C4B5A6978"

section \<open>Arrays in memory\<close>

text \<open>
  \<open>load mem a n\<close> reads the \<open>n\<close> units at address \<open>a\<close>; \<open>store mem a xs\<close> is \<open>mem\<close> with
  the array \<open>xs\<close> placed at \<open>a\<close>; two arrays of \<open>n\<close> units at \<open>a\<close> and \<open>b\<close> are
  \<open>separate\<close> when they do not overlap.
\<close>

definition load :: "'c::len mem \<Rightarrow> nat \<Rightarrow> nat \<Rightarrow> 'c word list" where
  "load mem a n = map (\<lambda>j. mem (a + j)) [0..<n]"

definition store :: "'c::len mem \<Rightarrow> nat \<Rightarrow> 'c word list \<Rightarrow> 'c mem" where
  "store mem a xs = (\<lambda>b. if a \<le> b \<and> b < a + length xs then xs ! (b - a) else mem b)"

definition separate :: "nat \<Rightarrow> nat \<Rightarrow> nat \<Rightarrow> bool" where
  "separate a b n = (a + n \<le> b \<or> b + n \<le> a)"

text \<open>The loop equations unfold only where asked.\<close>

declare SecureString_loop.simps [simp del]
declare decrypt_loop.simps [simp del]

section \<open>Rotation macros on a promoted byte\<close>

lemma mod8_lt: "n < 8 \<Longrightarrow> s \<le> n \<Longrightarrow> (n + 8 - s) mod 8 = n - (s::nat)"
  by (simp add: mod_if)

lemma mod8_ge: "n < s \<Longrightarrow> s < 8 \<Longrightarrow> (n + 8 - s) mod 8 = n + 8 - (s::nat)"
  by simp

lemma rotl_aux:
  fixes x :: u8
  assumes "s < 8" and len: "8 \<le> LENGTH('a::len)"
  shows "(ucast (push_bit s (ucast x :: 'a::len word) OR drop_bit (8 - s) (ucast x :: 'a word)) :: u8) = word_rotl s x"
proof (rule bit_word_eqI)
  fix n assume n: "n < LENGTH(8)"
  show "bit (ucast (push_bit s (ucast x :: 'a word) OR drop_bit (8 - s) (ucast x :: 'a word)) :: u8) n = bit (word_rotl s x) n"
  proof (cases "s \<le> n")
    case True
    have "\<not> bit x (8 - s + n)" using True by (auto dest: bit_imp_le_length)
    moreover have "n - s < LENGTH('a)" using n len by simp
    ultimately show ?thesis using True n assms by (simp add: bit_simps mod8_lt)
  next
    case False
    moreover have "8 + n - s < LENGTH('a)" "8 + n - s = n + 8 - s" using False n len by simp_all
    ultimately show ?thesis using n assms by (simp add: bit_simps mod8_ge)
  qed
qed

lemma rotr_aux:
  fixes x :: u8
  assumes "s < 8" and len: "8 \<le> LENGTH('a::len)"
  shows "(ucast (drop_bit s (ucast x :: 'a::len word) OR push_bit (8 - s) (ucast x :: 'a word)) :: u8) = word_rotr s x"
proof (rule bit_word_eqI)
  fix n assume n: "n < LENGTH(8)"
  show "bit (ucast (drop_bit s (ucast x :: 'a word) OR push_bit (8 - s) (ucast x :: 'a word)) :: u8) n = bit (word_rotr s x) n"
  proof (cases "n + s < 8")
    case True
    then have "\<not> 8 - s \<le> n" by simp
    then show ?thesis using True n assms by (simp add: bit_simps add.commute)
  next
    case False
    have "\<not> bit x (s + n)" using False by (auto dest: bit_imp_le_length)
    moreover have "8 - s \<le> n" "n - (8 - s) = n + s - 8" "(n + s) mod 8 = n + s - 8" using False n assms by (simp_all add: mod_if)
    moreover have "n + s - 8 < LENGTH('a)" using n assms by simp
    ultimately show ?thesis using False n assms by (simp add: bit_simps)
  qed
qed

lemma unat_ucast_u8:
  assumes "8 \<le> LENGTH('a::len)"
  shows "unat (ucast (k::u8) :: 'a word) = unat k"
proof -
  have "unat k < 2 ^ 8" using unsigned_less [of k] by simp
  also have "(2::nat) ^ 8 \<le> 2 ^ LENGTH('a)" using assms by (rule power_increasing) simp
  finally show ?thesis by (simp add: unsigned_ucast_eq take_bit_nat_eq_self)
qed

lemma unat_key_rot: "unat (((ucast (k::u8) :: cint) mod 7 + 1) mod 8) = unat k mod 7 + 1"
proof -
  have m: "unat ((ucast k :: cint) mod 7) = unat k mod 7"
    by (simp add: unat_mod unat_ucast_u8)
  have b: "unat k mod 7 < 7" by simp
  have "unat k mod 7 + 1 < 2 ^ LENGTH(32)" using b by simp
  then have "unat ((ucast k :: cint) mod 7 + 1) = unat k mod 7 + 1"
    using m by (simp add: unat_word_ariths take_bit_nat_eq_self flip: take_bit_eq_mod)
  moreover have "(unat k mod 7 + 1) mod 8 = unat k mod 7 + 1" using b by simp
  ultimately show ?thesis by (simp add: unat_mod)
qed

lemma unat_pos_rot: "unat ((((i::u64) + ucast (k::u8)) mod 8) mod 8) = (unat i + unat k) mod 8"
proof -
  have "unat (i + ucast k) mod 8 = ((unat i + unat k) mod 2 ^ LENGTH(64)) mod 8"
    by (simp only: unat_word_ariths unat_ucast_u8 [where 'a = 64, simplified])
  also have "\<dots> = (unat i + unat k) mod 8"
    by (rule mod_mod_cancel) simp
  finally show ?thesis by (simp add: unat_mod)
qed

lemma key_rot_lt8: "unat (k::u8) mod 7 + 1 < 8"
proof -
  have "unat k mod 7 < 7" by simp
  then show ?thesis by simp
qed

lemma ROL8_key: "ROL8 (ucast (x::u8) :: cint) ((ucast (k::u8) :: cint) mod 7 + 1) = rotate_left_8 x (unat k mod 7 + 1)"
  unfolding ROL8_def rotate_left_8_def unat_key_rot by (rule rotl_aux [OF key_rot_lt8]) simp

lemma ROR8_key: "ROR8 (ucast (x::u8) :: cint) ((ucast (k::u8) :: cint) mod 7 + 1) = rotate_right_8 x (unat k mod 7 + 1)"
  unfolding ROR8_def rotate_right_8_def unat_key_rot by (rule rotr_aux [OF key_rot_lt8]) simp

lemma ROL8_pos: "ROL8 (ucast (x::u8) :: cint) (((i::u64) + ucast (k::u8)) mod 8) = rotate_left_8 x ((unat i + unat k) mod 8)"
  unfolding ROL8_def rotate_left_8_def unat_pos_rot by (rule rotl_aux) simp_all

lemma ROR8_pos: "ROR8 (ucast (x::u8) :: cint) (((i::u64) + ucast (k::u8)) mod 8) = rotate_right_8 x ((unat i + unat k) mod 8)"
  unfolding ROR8_def rotate_right_8_def unat_pos_rot by (rule rotr_aux) simp_all

section \<open>Promoted arithmetic cast back to a byte\<close>

lemma ucast_down_add:
  fixes a b :: cint
  shows "(ucast (a + b) :: u8) = ucast a + ucast b"
proof -
  have d: "is_down (ucast :: cint \<Rightarrow> u8)" by (simp add: is_down)
  have "(ucast (a + b) :: u8) = ucast (word_of_int (uint a + uint b) :: cint)"
    by (simp only: word_add_def)
  also have "\<dots> = word_of_int (uint a + uint b)"
    using d by (rule ucast_down_wi)
  also have "\<dots> = word_of_int (uint a) + word_of_int (uint b)"
    by (simp only: wi_homs)
  also have "\<dots> = ucast a + ucast b"
    by (simp only: ucast_eq)
  finally show ?thesis .
qed

lemma ucast_down_sub:
  fixes a b :: cint
  shows "(ucast (a - b) :: u8) = ucast a - ucast b"
  by (metis add_right_cancel diff_add_cancel ucast_down_add)

lemma ucast_down_not: "(ucast (NOT (a::cint)) :: u8) = NOT (ucast a)"
  by (rule bit_word_eqI) (simp add: bit_simps)

lemma ucast_u8_cint_u8: "(ucast (ucast (x::u8) :: cint) :: u8) = x"
  by (rule bit_word_eqI) (simp add: bit_simps)

lemma not_add_cast: "(ucast (NOT ((ucast (t::u8) :: cint) + ucast (d::u8))) :: u8) = NOT (t + d)"
  by (simp only: ucast_down_not ucast_down_add ucast_u8_cint_u8)

lemma not_sub_cast: "(ucast (NOT (ucast (t::u8) :: cint) - ucast (d::u8)) :: u8) = NOT t - d"
  by (simp only: ucast_down_not ucast_down_sub ucast_u8_cint_u8)

section \<open>The code against the specification's pipeline\<close>

lemma obfuscate_spec:
  assumes "N \<noteq> 0"
  shows "obfuscate N Seed c i =
    Inr (ucast (spec_encode 0xA5 (ucast c) (unat i) (get N Seed 0 i)
      (get N (Seed XOR 0xBAADF00DDEADC0DE) 0 (N - i - 1))
      (get N (Seed XOR 0xFEEDBABECAFED00D) 0 ((i * i) mod N))))"
  using assms
  by (simp only: obfuscate_def spec_encode_def Let_def ROL8_key ROR8_pos not_add_cast if_False)

lemma deobfuscate_spec:
  assumes "N \<noteq> 0"
  shows "deobfuscate N Seed c i =
    Inr (ucast (spec_decode 0xA5 (ucast c) (unat i) (get N Seed 0 i)
      (get N (Seed XOR 0xBAADF00DDEADC0DE) 0 (N - i - 1))
      (get N (Seed XOR 0xFEEDBABECAFED00D) 0 ((i * i) mod N))))"
  using assms
  by (simp only: deobfuscate_def spec_decode_def Let_def ROL8_pos ROR8_key not_sub_cast if_False)

lemma spec_decode_encode: "spec_decode X (spec_encode X c i a b k) i a b k = c"
  by (simp add: spec_decode_def spec_encode_def rotate_left_8_def rotate_right_8_def Let_def xor.assoc)

lemma spec_encode_decode: "spec_encode X (spec_decode X c i a b k) i a b k = c"
  by (simp add: spec_decode_def spec_encode_def rotate_left_8_def rotate_right_8_def Let_def xor.assoc)

section \<open>The two headers compared\<close>

lemma ROL8_S_eq: "ROL8_S x r = ROL8 x r"
  by (simp only: ROL8_S_def ROL8_def)

lemma ROR8_S_eq: "ROR8_S x r = ROR8 x r"
  by (simp only: ROR8_S_def ROR8_def)

lemma mix_S_eq: "mix_S x = mix x"
  by (simp only: mix_S_def mix_def)

lemma get_byte_S_eq: "get_byte_S Seed Round index = get_byte Seed Round index"
  by (simp only: get_byte_S_def get_byte_def get_byte_val_def mix_S_eq magic_S_def magic_def Let_def)

lemma get_S_eq: "get_S N Seed Round index = get N Seed Round index"
  by (simp only: get_S_def get_def get_rot_def get_byte_S_eq ROL8_S_eq Let_def)

lemma obfuscate_S_spec:
  assumes "N \<noteq> 0"
  shows "obfuscate_S N Seed c i =
    Inr (ucast (spec_encode 0x5A (ucast c) (unat i) (get N Seed 0 i)
      (get N (Seed XOR 0xBAADF00DDEADC0DE) 0 (N - i - 1))
      (get N (Seed XOR 0xFEEDBABECAFED00D) 0 ((i * i) mod N))))"
  using assms
  by (simp only: obfuscate_S_def spec_encode_def Let_def get_S_eq ROL8_S_eq ROR8_S_eq
      ROL8_key ROR8_pos not_add_cast if_False)

lemma deobfuscate_S_spec:
  assumes "N \<noteq> 0"
  shows "deobfuscate_S N Seed c i =
    Inr (ucast (spec_decode 0x5A (ucast c) (unat i) (get N Seed 0 i)
      (get N (Seed XOR 0xBAADF00DDEADC0DE) 0 (N - i - 1))
      (get N (Seed XOR 0xFEEDBABECAFED00D) 0 ((i * i) mod N))))"
  using assms
  by (simp only: deobfuscate_S_def spec_decode_def Let_def get_S_eq ROL8_S_eq ROR8_S_eq
      ROL8_pos ROR8_key not_sub_cast if_False)

text \<open>The two stage-4 constants are each other's complement, and so are the outputs.\<close>

lemma xor_5A: "(x :: u8) XOR 0x5A = NOT (x XOR 0xA5)"
proof -
  have "(0x5A :: u8) = NOT 0xA5" by simp
  then show ?thesis by (simp only: bit.xor_compl_right)
qed

lemma spec_encode_5A: "spec_encode 0x5A c i a b k = NOT (spec_encode 0xA5 c i a b k)"
  by (simp only: spec_encode_def Let_def rotate_right_8_def xor_5A word_rot_logs)

text \<open>A unit cast through the working byte and back.\<close>

lemma ucast_u8_roundtrip:
  fixes t :: u8
  assumes "8 \<le> LENGTH('c::len)"
  shows "(ucast (ucast t :: 'c word) :: u8) = t"
  using assms by (intro bit_word_eqI) (simp add: bit_simps)

lemma ucast_low_byte: "(ucast (ucast (u :: 'c::len word) :: u8) :: 'c word) = u AND 0xFF"
proof (rule bit_word_eqI)
  fix n assume "n < LENGTH('c)"
  have "(0xFF :: 'c word) = mask 8" by (simp add: mask_eq_exp_minus_1)
  then show "bit (ucast (ucast u :: u8) :: 'c word) n = bit (u AND 0xFF) n"
    by (simp only: bit_simps) auto
qed

lemma deobfuscate_obfuscate:
  fixes c :: "'c::len word"
  assumes N: "N \<noteq> 0" and len: "8 \<le> LENGTH('c)" and ob: "obfuscate N Seed c i = Inr v"
  shows "deobfuscate N Seed v i = Inr (c AND 0xFF)"
proof -
  have "v = ucast (spec_encode 0xA5 (ucast c) (unat i) (get N Seed 0 i)
      (get N (Seed XOR 0xBAADF00DDEADC0DE) 0 (N - i - 1))
      (get N (Seed XOR 0xFEEDBABECAFED00D) 0 ((i * i) mod N)))"
    using ob obfuscate_spec [OF N, of Seed c i] by simp
  then show ?thesis
    by (simp only: deobfuscate_spec [OF N] ucast_u8_roundtrip [OF len] spec_decode_encode ucast_low_byte)
qed

lemma deobfuscate_S_obfuscate_S:
  fixes c :: "'c::len word"
  assumes N: "N \<noteq> 0" and len: "8 \<le> LENGTH('c)" and ob: "obfuscate_S N Seed c i = Inr v"
  shows "deobfuscate_S N Seed v i = Inr (c AND 0xFF)"
proof -
  have "v = ucast (spec_encode 0x5A (ucast c) (unat i) (get N Seed 0 i)
      (get N (Seed XOR 0xBAADF00DDEADC0DE) 0 (N - i - 1))
      (get N (Seed XOR 0xFEEDBABECAFED00D) 0 ((i * i) mod N)))"
    using ob obfuscate_S_spec [OF N, of Seed c i] by simp
  then show ?thesis
    by (simp only: deobfuscate_S_spec [OF N] ucast_u8_roundtrip [OF len] spec_decode_encode ucast_low_byte)
qed

lemma and_FF_u8: "(c :: u8) AND 0xFF = c"
proof -
  have "(0xFF :: u8) = - 1" by simp
  then show ?thesis by (simp only: and.right_neutral bit.conj_one_right word_bw_comms) 
qed

lemma le_FF_and:
  fixes u :: "'c::len word"
  assumes "u \<le> 0xFF"
  shows "u AND 0xFF = u"
proof -
  have m: "(0xFF :: 'c word) = mask 8" by (simp add: mask_eq_exp_minus_1)
  have "unat u \<le> unat (0xFF :: 'c word)" using assms by (simp add: word_le_nat_alt)
  also have "\<dots> \<le> 255" by simp
  finally have "unat u < 2 ^ 8" by simp
  then have "unat (take_bit 8 u) = unat u"
    by (simp add: unsigned_take_bit_eq take_bit_nat_eq_self)
  then have "take_bit 8 u = u" by (simp add: word_unat_eq_iff)
  then show ?thesis unfolding m by (simp add: take_bit_eq_mask)
qed

section \<open>Claims about a single code unit\<close>

text \<open>
  C2. Per-position bijectivity: for every \<open>N \<ge> 1\<close>, seed and position \<open>i\<close> (in
  particular every \<open>i < N\<close>), \<open>obfuscate\<close> and \<open>deobfuscate\<close> on 8-bit units return a
  value, the map from the input byte to the output byte of \<open>obfuscate\<close> is a permutation
  of the 256 byte values, and \<open>deobfuscate\<close> at the same position is its inverse on both
  sides.
\<close>

theorem obfuscate_permutation:
  assumes "N \<noteq> 0"
  shows "(\<forall>c :: u8. obfuscate N Seed c i = Inr (projr (obfuscate N Seed c i)))
       \<and> (\<forall>c :: u8. deobfuscate N Seed c i = Inr (projr (deobfuscate N Seed c i)))
       \<and> bij (\<lambda>c :: u8. projr (obfuscate N Seed c i))
       \<and> (\<forall>c :: u8. projr (deobfuscate N Seed (projr (obfuscate N Seed c i)) i) = c)
       \<and> (\<forall>c :: u8. projr (obfuscate N Seed (projr (deobfuscate N Seed c i)) i) = c)"
proof -
  let ?kA = "get N Seed 0 i"
  let ?kB = "get N (Seed XOR 0xBAADF00DDEADC0DE) 0 (N - i - 1)"
  let ?kC = "get N (Seed XOR 0xFEEDBABECAFED00D) 0 ((i * i) mod N)"
  let ?f = "\<lambda>c :: u8. projr (obfuscate N Seed c i)"
  let ?g = "\<lambda>c :: u8. projr (deobfuscate N Seed c i)"
  have f: "?f c = spec_encode 0xA5 c (unat i) ?kA ?kB ?kC" for c
    by (simp add: obfuscate_spec [OF assms])
  have g: "?g c = spec_decode 0xA5 c (unat i) ?kA ?kB ?kC" for c
    by (simp add: deobfuscate_spec [OF assms])
  have gf: "?g (?f c) = c" for c
    by (simp only: f g spec_decode_encode)
  have fg: "?f (?g c) = c" for c
    by (simp only: f g spec_encode_decode)
  have "bij ?f"
    by (rule o_bij [of ?g]) (simp_all add: fun_eq_iff gf fg)
  moreover have "obfuscate N Seed c i = Inr (?f c)" for c :: u8
    by (simp add: obfuscate_spec [OF assms])
  moreover have "deobfuscate N Seed c i = Inr (?g c)" for c :: u8
    by (simp add: deobfuscate_spec [OF assms])
  ultimately show ?thesis using gf fg by blast
qed

theorem obfuscate_permutation_witness:
  "(1 :: u64) \<noteq> 0 \<and> bij (\<lambda>c :: u8. projr (obfuscate 1 0 c 0))
     \<and> projr (deobfuscate 1 0 (projr (obfuscate 1 0 (0x41 :: u8) 0)) 0) = (0x41 :: u8)"
  using obfuscate_permutation [of 1 0 0] by simp

section \<open>Claims about the key generator\<close>

lemma get_rot_unat: "unat (get_rot Round index) = unat (index + Round) mod 8 + 1"
proof -
  have m: "unat ((index + Round) mod 8) = unat (index + Round) mod 8"
    by (simp add: unat_mod)
  have "unat (index + Round) mod 8 < 8" by simp
  then have "unat (index + Round) mod 8 + 1 < 2 ^ LENGTH(64)" by simp
  then show ?thesis
    unfolding get_rot_def using m
    by (simp add: unat_word_ariths take_bit_nat_eq_self flip: take_bit_eq_mod)
qed

lemma ROL8_byte_u64:
  fixes b :: u8 and r :: u64
  shows "ROL8 (ucast b :: u64) r = word_rotl (unat r) b"
proof -
  have m: "unat (r mod 8) = unat r mod 8" by (simp add: unat_mod)
  have "ROL8 (ucast b :: u64) r = word_rotl (unat r mod 8) b"
    unfolding ROL8_def m by (rule rotl_aux) simp_all
  also have "\<dots> = word_rotl (unat r) b"
    by (rule bit_word_eqI) (simp add: bit_simps mod_simps)
  finally show ?thesis .
qed

lemma combined_byte:
  fixes k :: u8 and index Seed :: u64
  assumes "index \<le> 0xFF"
  shows "ucast k XOR index XOR (Seed AND 0xFF) = ucast (k XOR ucast index XOR ucast Seed)"
proof -
  have m: "(0xFF :: u64) = mask 8" by (simp add: mask_eq_exp_minus_1)
  have "index AND mask 8 = index" using le_FF_and [OF assms] by (simp only: m)
  then have i: "index = index AND mask 8" by simp
  have "ucast k XOR (index AND mask 8) XOR (Seed AND mask 8) =
      (ucast (k XOR ucast index XOR ucast Seed) :: u64)"
    by (rule bit_word_eqI) (auto simp: bit_simps dest: bit_imp_le_length)
  then show ?thesis unfolding m using i by simp
qed

lemma get_small_index:
  assumes "index \<le> 0xFF"
  shows "get N Seed Round index =
     word_rotl (unat (get_rot Round index))
       (get_byte Seed Round index XOR get_byte Seed Round (N - index - 1 + Round)
          XOR ucast index XOR ucast Seed)"
  by (simp only: get_def Let_def combined_byte [OF assms] ROL8_byte_u64 xor.assoc)

text \<open>
  What holds of the amount for every \<open>Round\<close> and \<open>index\<close>: it is
  \<open>(index + Round) mod 8 + 1\<close>, it lies in \<open>[1,8]\<close> and is never 0; on a byte, \<open>ROL8\<close> with
  this amount is the left rotation by that many bits, and it moves the byte 1 unless
  \<open>(index + Round) mod 8\<close> is 7.
\<close>

lemma get_rot_range:
  "unat (get_rot Round index) = unat (index + Round) mod 8 + 1
   \<and> 1 \<le> unat (get_rot Round index) \<and> unat (get_rot Round index) \<le> 8
   \<and> get_rot Round index \<noteq> 0"
proof -
  let ?s = "unat (get_rot Round index)"
  have s: "?s = unat (index + Round) mod 8 + 1" by (rule get_rot_unat)
  have lt: "unat (index + Round) mod 8 < 8" by simp
  have rng: "1 \<le> ?s" "?s \<le> 8" using s lt by simp_all
  have nz: "get_rot Round index \<noteq> 0"
    using rng by (auto simp: unat_eq_0 dest!: arg_cong [of _ _ unat])
  show ?thesis using s rng nz by blast
qed

lemma ROL8_moves_1:
  assumes "unat (index + Round) mod 8 \<noteq> 7"
  shows "ROL8 (ucast (1 :: u8) :: u64) (get_rot Round index) \<noteq> 1"
proof -
  let ?s = "unat (get_rot Round index)"
  have s: "?s = unat (index + Round) mod 8 + 1" by (rule get_rot_unat)
  have lt: "unat (index + Round) mod 8 < 8" by simp
  have rng: "1 \<le> ?s" "?s < 8" using assms s lt by simp_all
  have "bit (word_rotl ?s (1 :: u8)) ?s"
    using rng by (simp add: bit_simps)
  moreover have "\<not> bit (1 :: u8) ?s" using rng by (simp add: bit_simps)
  ultimately have "word_rotl ?s (1 :: u8) \<noteq> 1" by metis
  then show ?thesis using ROL8_byte_u64 [of 1 "get_rot Round index"] by simp
qed

text \<open>
  C4. The claim is that for every index in \<open>[0, N)\<close> \<open>get\<close> rotates the combined byte left
  by \<open>(index + Round) mod 8 + 1\<close> bits and that this rotation is never the identity. The code
  misses it at two kinds of position. At \<open>index = 7\<close>, \<open>Round = 0\<close> the amount is 8, which
  \<open>ROL8\<close> reduces modulo 8 to a shift by 0: every byte comes back unchanged, and
  \<open>KeyGen<8, 0>::get(7)\<close> returns the combined byte \<open>0xED\<close> as it is. The \<open>+ 1\<close> of \<open>get\<close>
  does not do what \<open>(k2 % 7) + 1\<close> does in \<open>obfuscate\<close>. At \<open>index = 263\<close> the operand of
  \<open>ROL8\<close> is a 64-bit value with bit 8 set, and the macro, which its comment calls an 8-bit
  rotation, brings that bit into the result: \<open>KeyGen<300, 0x1234>::get(263)\<close> returns
  \<open>0x39\<close>, while the combined byte \<open>0x38\<close> rotated by the amount 8 is \<open>0x38\<close>.
\<close>

theorem get_rotation_full_turn_is_noop:
  "(7 :: u64) < 8 \<and> get_rot 0 7 = 8
   \<and> (\<forall>b :: u8. ROL8 (ucast b :: u64) (get_rot 0 7) = b)
   \<and> get_byte 0 0 7 XOR get_byte 0 0 (8 - 7 - 1 + 0) XOR 7 = 0xED
   \<and> get 8 0 0 7 = 0xED
   \<and> (263 :: u64) < 300 \<and> get_rot 0 263 = 8
   \<and> get_byte 0x1234 0 263 XOR get_byte 0x1234 0 (300 - 263 - 1 + 0)
         XOR ucast (263 :: u64) XOR ucast (0x1234 :: u64) = 0x38
   \<and> word_rotl (unat (get_rot 0 263)) (0x38 :: u8) = 0x38
   \<and> get 300 0x1234 0 263 = 0x39"
proof -
  have r: "get_rot 0 7 = 8" "get_rot 0 263 = 8" by (simp_all add: get_rot_def)
  have turn: "word_rotl 8 b = b" for b :: u8
    by (rule bit_word_eqI) (simp add: bit_simps)
  then have id: "ROL8 (ucast b :: u64) (8 :: u64) = b" for b :: u8
    by (simp add: ROL8_byte_u64)
  have k: "get_byte 0 0 7 XOR get_byte 0 0 (8 - 7 - 1 + 0) XOR 7 = 0xED"
    by (simp add: get_byte_def get_byte_val_def mix_def magic_def Let_def)
  have g: "get 8 0 0 7 = 0xED"
    by (simp add: get_def get_rot_def ROL8_def get_byte_def get_byte_val_def mix_def magic_def
        Let_def)
  have k': "get_byte 0x1234 0 263 XOR get_byte 0x1234 0 (300 - 263 - 1 + 0)
         XOR ucast (263 :: u64) XOR ucast (0x1234 :: u64) = 0x38"
    by (simp add: get_byte_def get_byte_val_def mix_def magic_def Let_def)
  have g': "get 300 0x1234 0 263 = 0x39"
    by (simp add: get_def get_rot_def ROL8_def get_byte_def get_byte_val_def mix_def magic_def
        Let_def)
  show ?thesis using r id turn k g k' g' by simp
qed

text \<open>
  C5, as stated, fails: for \<open>Seed = 1\<close>, \<open>Round = 0\<close>, \<open>index = 0\<close> the folded 32-bit
  value is \<open>0xCB4F1E8C\<close>; \<open>get_byte\<close> returns \<open>0x8C XOR 0x1E XOR 0x4F = 0xDD\<close>, not
  the XOR of all four lanes, \<open>0x16\<close>.
\<close>

theorem get_byte_four_lanes_counterexample:
  "get_byte 1 0 0 \<noteq>
     byte_lane 0 (get_byte_val 1 0 0) XOR byte_lane 1 (get_byte_val 1 0 0)
       XOR byte_lane 2 (get_byte_val 1 0 0) XOR byte_lane 3 (get_byte_val 1 0 0)"
proof -
  have v: "get_byte_val 1 0 0 = 0xCB4F1E8C"
    by (simp add: get_byte_val_def mix_def magic_def Let_def)
  show ?thesis
    by (simp add: get_byte_def v byte_lane_def Let_def)
qed

lemma ucast_xor_u8: "(ucast (x XOR y :: u64) :: u8) = ucast x XOR ucast y"
  by (rule bit_word_eqI) (simp add: bit_simps)

text \<open>
  C5, amended: for every \<open>Seed\<close>, \<open>Round\<close> and \<open>index\<close>, the result of \<open>get_byte\<close> is
  the XOR of the three low byte lanes (bits 0-7, 8-15 and 16-23) of the 32-bit value
  obtained by XOR-ing the upper 32 bits of the mixed and round-folded 64-bit value against
  its lower 32 bits; the top lane (bits 24-31) does not enter the result.
\<close>

theorem get_byte_three_lanes:
  "get_byte Seed Round index =
     byte_lane 0 (get_byte_val Seed Round index) XOR byte_lane 1 (get_byte_val Seed Round index)
       XOR byte_lane 2 (get_byte_val Seed Round index)
   \<and> drop_bit 32 (get_byte_val Seed Round index) = 0"
proof -
  have "drop_bit 32 (get_byte_val Seed Round index) = 0"
    by (rule bit_word_eqI) (simp add: get_byte_val_def Let_def bit_simps)
  moreover have "get_byte Seed Round index =
     byte_lane 0 (get_byte_val Seed Round index) XOR byte_lane 1 (get_byte_val Seed Round index)
       XOR byte_lane 2 (get_byte_val Seed Round index)"
    by (simp add: get_byte_def byte_lane_def Let_def ucast_xor_u8 xor.assoc xor.commute)
  ultimately show ?thesis by simp
qed

section \<open>Indices and loops\<close>

lemma of_nat_below:
  fixes N :: u64
  assumes "j < unat N"
  shows "(of_nat j :: u64) < N" and "unat (of_nat j :: u64) = j"
proof -
  show u: "unat (of_nat j :: u64) = j"
    by (metis assms le_unat_uoi order_less_imp_le)
  show "(of_nat j :: u64) < N" using assms u by (simp add: word_less_nat_alt)
qed

lemma unat_succ_lt:
  fixes i N :: "'a::len word"
  assumes lt: "i < N"
  shows "unat (i + 1) = Suc (unat i)"
proof -
  have below: "unat i < unat N" using lt by (simp add: word_less_nat_alt)
  have "unat N < 2 ^ LENGTH('a)" by (rule unsigned_less)
  with below have "Suc (unat i) < 2 ^ LENGTH('a)" by linarith
  then show ?thesis
    by (simp add: unat_word_ariths take_bit_nat_eq_self unsigned_of_nat flip: take_bit_eq_mod)
qed

lemma mirror_index:
  fixes i N :: u64
  assumes "i < N"
  shows "N - i - 1 < N" and "unat (N - i - 1) = unat N - unat i - 1"
proof -
  have below: "unat i < unat N" using assms by (simp add: word_less_nat_alt)
  have d: "unat (N - i) = unat N - unat i"
    using assms by (simp add: unat_sub)
  then have "unat (1 :: u64) \<le> unat (N - i)" using below by simp
  then have "1 \<le> N - i" by (simp only: word_le_nat_alt)
  then have "unat (N - i - 1) = unat (N - i) - unat (1 :: u64)" by (rule unat_sub)
  then show u: "unat (N - i - 1) = unat N - unat i - 1" using d by simp
  show "N - i - 1 < N" using u below by (simp add: word_less_nat_alt)
qed

lemma sq_mod_lt:
  fixes i N :: u64
  assumes "N \<noteq> 0"
  shows "(i * i) mod N < N"
  by (simp add: assms word_gt_0 word_mod_less_divisor)

lemma SecureString_loop_result:
  fixes ob :: "'c::len word \<Rightarrow> u64 \<Rightarrow> fault + 'c word"
  assumes "\<And>c j. j < N \<Longrightarrow> ob c j = Inr (f c j)"
  shows "\<exists>r. SecureString_loop ob N input i enc = Inr r \<and> length r = length enc \<and>
     (\<forall>j < length enc. r ! j =
        (if unat i \<le> j \<and> j < unat N then f (input ! j) (of_nat j) else enc ! j))"
  using assms
proof (induction ob N input i enc rule: SecureString_loop.induct)
  case (1 ob N input i enc)
  show ?case
  proof (cases "i < N")
    case True
    let ?v = "f (input ! unat i) i"
    have ob: "ob (input ! unat i) i = Inr ?v" using True "1.prems" by simp
    have below: "unat i < unat N" using True by (simp add: word_less_nat_alt)
    have suc: "unat (i + 1) = Suc (unat i)" using True by (rule unat_succ_lt)
    obtain r where r: "SecureString_loop ob N input (i + 1) (enc[unat i := ?v]) = Inr r"
      and len: "length r = length enc"
      and nth: "\<forall>j < length enc. r ! j =
        (if unat (i + 1) \<le> j \<and> j < unat N then f (input ! j) (of_nat j)
         else enc[unat i := ?v] ! j)"
      using "1.IH" [OF True ob "1.prems"] by auto
    have step: "SecureString_loop ob N input i enc = Inr r"
      by (subst SecureString_loop.simps) (simp add: True ob r)
    have "r ! j = (if unat i \<le> j \<and> j < unat N then f (input ! j) (of_nat j) else enc ! j)"
      if j: "j < length enc" for j
    proof (cases "j = unat i")
      case True
      then show ?thesis using nth j suc below by simp
    next
      case False
      then show ?thesis using nth j suc by auto
    qed
    then show ?thesis using step len by blast
  next
    case False
    then have "unat N \<le> unat i" by (simp add: word_less_nat_alt)
    moreover have "SecureString_loop ob N input i enc = Inr enc"
      by (subst SecureString_loop.simps) (simp add: False)
    ultimately show ?thesis by auto
  qed
qed

lemma decrypt_loop_total:
  fixes deob :: "'c::len word \<Rightarrow> u64 \<Rightarrow> fault + 'c word"
  assumes "\<And>c j. j < N \<Longrightarrow> deob c j = Inr (g c j)"
  shows "\<exists>m'. decrypt_loop deob N this out i mem = Inr m'"
  using assms
proof (induction deob N this out i mem rule: decrypt_loop.induct)
  case (1 deob N this out i mem)
  show ?case
  proof (cases "i < N")
    case True
    have d: "deob (mem (this + unat i)) i = Inr (g (mem (this + unat i)) i)"
      using True "1.prems" by simp
    obtain m' where "decrypt_loop deob N this out (i + 1)
        (mem (out + unat i := g (mem (this + unat i)) i)) = Inr m'"
      using "1.IH" [OF True d "1.prems"] by blast
    then have "decrypt_loop deob N this out i mem = Inr m'"
      by (subst decrypt_loop.simps) (simp add: True d)
    then show ?thesis by blast
  next
    case False
    have "decrypt_loop deob N this out i mem = Inr mem"
      by (subst decrypt_loop.simps) (simp add: False)
    then show ?thesis by blast
  qed
qed

lemma decrypt_loop_result:
  fixes deob :: "'c::len word \<Rightarrow> u64 \<Rightarrow> fault + 'c word"
  assumes "\<And>c j. j < N \<Longrightarrow> deob c j = Inr (g c j)" and "separate this out (unat N)"
  shows "\<exists>m'. decrypt_loop deob N this out i mem = Inr m' \<and>
     (\<forall>a. m' a =
        (if out + unat i \<le> a \<and> a < out + unat N
         then g (mem (this + (a - out))) (of_nat (a - out)) else mem a))"
  using assms
proof (induction deob N this out i mem rule: decrypt_loop.induct)
  case (1 deob N this out i mem)
  show ?case
  proof (cases "i < N")
    case True
    let ?v = "g (mem (this + unat i)) i"
    let ?mem = "mem (out + unat i := ?v)"
    have d: "deob (mem (this + unat i)) i = Inr ?v" using True "1.prems" by simp
    have below: "unat i < unat N" using True by (simp add: word_less_nat_alt)
    have suc: "unat (i + 1) = Suc (unat i)" using True by (rule unat_succ_lt)
    have sep: "this + unat N \<le> out \<or> out + unat N \<le> this"
      using "1.prems"(2) by (simp add: separate_def)
    obtain m' where m': "decrypt_loop deob N this out (i + 1) ?mem = Inr m'"
      and at: "\<forall>a. m' a =
        (if out + unat (i + 1) \<le> a \<and> a < out + unat N
         then g (?mem (this + (a - out))) (of_nat (a - out)) else ?mem a)"
      using "1.IH" [OF True d "1.prems"] by blast
    have step: "decrypt_loop deob N this out i mem = Inr m'"
      by (subst decrypt_loop.simps) (simp add: True d m')
    have "m' a = (if out + unat i \<le> a \<and> a < out + unat N
         then g (mem (this + (a - out))) (of_nat (a - out)) else mem a)" for a
    proof (cases "a = out + unat i")
      case True
      then show ?thesis using at suc below by simp
    next
      case False
      have "?mem (this + (a - out)) = mem (this + (a - out))"
        if "out \<le> a" "a < out + unat N"
        using that sep below by auto
      then show ?thesis using False at suc by auto
    qed
    then show ?thesis using step by blast
  next
    case False
    then have "unat N \<le> unat i" by (simp add: word_less_nat_alt)
    moreover have "decrypt_loop deob N this out i mem = Inr mem"
      by (subst decrypt_loop.simps) (simp add: False)
    ultimately show ?thesis by auto
  qed
qed

section \<open>Constructor and decrypt together\<close>

lemma load_store_same: "load (store mem a xs) a (length xs) = xs"
proof (rule nth_equalityI)
  show "length (load (store mem a xs) a (length xs)) = length xs"
    by (simp add: load_def)
next
  fix j assume "j < length (load (store mem a xs) a (length xs))"
  then have "j < length xs" by (simp add: load_def)
  then show "load (store mem a xs) a (length xs) ! j = xs ! j"
    by (simp add: load_def store_def)
qed

lemma SecureString_loop_closed:
  fixes ob :: "'c::len word \<Rightarrow> u64 \<Rightarrow> fault + 'c word"
  assumes ok: "\<And>c j. j < N \<Longrightarrow> ob c j = Inr (f c j)" and len: "length enc = unat N"
  shows "SecureString_loop ob N input 0 enc =
     Inr (map (\<lambda>j. f (input ! j) (of_nat j)) [0..<unat N])"
proof -
  obtain r where r: "SecureString_loop ob N input 0 enc = Inr r"
    and lr: "length r = length enc"
    and nth: "\<forall>j < length enc. r ! j =
        (if unat (0 :: u64) \<le> j \<and> j < unat N then f (input ! j) (of_nat j) else enc ! j)"
    using SecureString_loop_result [of N ob f input 0 enc] ok by blast
  have "r = map (\<lambda>j. f (input ! j) (of_nat j)) [0..<unat N]"
    using lr nth len by (simp add: list_eq_iff_nth_eq)
  then show ?thesis using r by simp
qed

lemma decrypt_loop_closed:
  fixes deob :: "'c::len word \<Rightarrow> u64 \<Rightarrow> fault + 'c word"
  assumes ok: "\<And>c j. j < N \<Longrightarrow> deob c j = Inr (g c j)" and sep: "separate this out (unat N)"
  shows "\<exists>m'. decrypt_loop deob N this out 0 mem = Inr m'
     \<and> load m' out (unat N) = map (\<lambda>j. g (mem (this + j)) (of_nat j)) [0..<unat N]
     \<and> (\<forall>a. \<not> (out \<le> a \<and> a < out + unat N) \<longrightarrow> m' a = mem a)
     \<and> load m' this (unat N) = load mem this (unat N)"
proof -
  obtain m' where m': "decrypt_loop deob N this out 0 mem = Inr m'"
    and at: "\<forall>a. m' a =
        (if out + unat (0 :: u64) \<le> a \<and> a < out + unat N
         then g (mem (this + (a - out))) (of_nat (a - out)) else mem a)"
    using decrypt_loop_result [of N deob g this out 0 mem] ok sep by blast
  have s: "this + unat N \<le> out \<or> out + unat N \<le> this"
    using sep by (simp add: separate_def)
  have 1: "load m' out (unat N) = map (\<lambda>j. g (mem (this + j)) (of_nat j)) [0..<unat N]"
    using at by (simp add: load_def)
  have 2: "\<forall>a. \<not> (out \<le> a \<and> a < out + unat N) \<longrightarrow> m' a = mem a"
    using at by simp
  have 3: "load m' this (unat N) = load mem this (unat N)"
    unfolding load_def using at s by auto
  show ?thesis using m' 1 2 3 by blast
qed

lemma loops_compose:
  fixes ob deob :: "'c::len word \<Rightarrow> u64 \<Rightarrow> fault + 'c word"
  assumes ob: "\<And>c j. j < N \<Longrightarrow> ob c j = Inr (f c j)"
    and deob: "\<And>c j. j < N \<Longrightarrow> deob c j = Inr (g c j)"
    and inv: "\<And>c j. j < N \<Longrightarrow> g (f c j) j = h c"
    and len: "length P = unat N"
    and sep: "separate this out (unat N)"
  shows "\<exists>enc m'. SecureString_loop ob N P 0 (replicate (unat N) 0) = Inr enc
     \<and> length enc = unat N
     \<and> decrypt_loop deob N this out 0 (store mem this enc) = Inr m'
     \<and> load m' out (unat N) = map h P
     \<and> load m' this (unat N) = enc"
proof -
  let ?enc = "map (\<lambda>j. f (P ! j) (of_nat j)) [0..<unat N]"
  let ?mem = "store mem this ?enc"
  have c: "SecureString_loop ob N P 0 (replicate (unat N) 0) = Inr ?enc"
    by (rule SecureString_loop_closed [of N ob f, OF ob]) simp_all
  have le: "length ?enc = unat N" by simp
  obtain m' where m': "decrypt_loop deob N this out 0 ?mem = Inr m'"
    and out: "load m' out (unat N) = map (\<lambda>j. g (?mem (this + j)) (of_nat j)) [0..<unat N]"
    and obj: "load m' this (unat N) = load ?mem this (unat N)"
    using decrypt_loop_closed [of N deob g this out ?mem] deob sep by blast
  have "load ?mem this (unat N) = ?enc"
    using load_store_same [of mem this ?enc] by simp
  then have o: "load m' this (unat N) = ?enc" using obj by simp
  have "map (\<lambda>j. g (?mem (this + j)) (of_nat j)) [0..<unat N] = map h P"
  proof (rule nth_equalityI)
    show "length (map (\<lambda>j. g (?mem (this + j)) (of_nat j)) [0..<unat N]) = length (map h P)"
      using len by simp
  next
    fix j assume "j < length (map (\<lambda>j. g (?mem (this + j)) (of_nat j)) [0..<unat N])"
    then have j: "j < unat N" by simp
    then have "?mem (this + j) = f (P ! j) (of_nat j)" by (simp add: store_def)
    moreover have "g (f (P ! j) (of_nat j)) (of_nat j) = h (P ! j)"
      using inv of_nat_below(1) [OF j] by simp
    ultimately show "map (\<lambda>j. g (?mem (this + j)) (of_nat j)) [0..<unat N] ! j = map h P ! j"
      using j len by simp
  qed
  then have "load m' out (unat N) = map h P" using out by simp
  then show ?thesis using c le m' o by blast
qed

lemma SecureString_decrypt:
  fixes P :: "'c::len word list"
  assumes len8: "8 \<le> LENGTH('c)" and len: "length P = unat N"
    and sep: "separate this out (unat N)"
  shows "\<exists>enc m'. SecureString N Seed P = Inr enc \<and> length enc = unat N
     \<and> decrypt N Seed this out (store mem this enc) = Inr m'
     \<and> load m' out (unat N) = map (\<lambda>u. u AND 0xFF) P
     \<and> load m' this (unat N) = enc"
  unfolding SecureString_def decrypt_def
proof (rule loops_compose [where f = "\<lambda>c j. projr (obfuscate N Seed c j)"
      and g = "\<lambda>c j. projr (deobfuscate N Seed c j)", OF _ _ _ len sep])
  fix c :: "'c word" and j :: u64
  assume "j < N"
  then have N: "N \<noteq> 0" by auto
  show "obfuscate N Seed c j = Inr (projr (obfuscate N Seed c j))"
    by (simp add: obfuscate_spec [OF N])
  show "deobfuscate N Seed c j = Inr (projr (deobfuscate N Seed c j))"
    by (simp add: deobfuscate_spec [OF N])
  show "projr (deobfuscate N Seed (projr (obfuscate N Seed c j)) j) = c AND 0xFF"
    using deobfuscate_obfuscate [OF N len8, of Seed c j] by (simp add: obfuscate_spec [OF N])
qed


section \<open>Claims about whole literals\<close>




text \<open>
  C3. Wide code units: for 16-bit units and \<open>N \<ge> 1\<close>, \<open>obfuscate\<close> and \<open>deobfuscate\<close>
  (of either header) return values whose high 8 bits are zero; the result of \<open>obfuscate\<close>
  depends on the low byte of the unit only; \<open>deobfuscate\<close> of \<open>obfuscate\<close> of a unit
  \<open>u\<close> is the low byte of \<open>u\<close>, which is \<open>u\<close> exactly when the high byte of \<open>u\<close> is zero;
  and \<open>decrypt\<close> of an encoded wide literal writes the low byte of every original unit.
\<close>

theorem wide_units_truncated:
  fixes u :: "16 word" and P :: "16 word list"
  assumes N: "N \<noteq> 0" and len: "length P = unat N" and sep: "separate this out (unat N)"
  shows "obfuscate N Seed u i = Inr (projr (obfuscate N Seed u i))
     \<and> deobfuscate N Seed u i = Inr (projr (deobfuscate N Seed u i))
     \<and> drop_bit 8 (projr (obfuscate N Seed u i)) = 0
     \<and> drop_bit 8 (projr (deobfuscate N Seed u i)) = 0
     \<and> drop_bit 8 (projr (obfuscate_S N Seed u i)) = 0
     \<and> drop_bit 8 (projr (deobfuscate_S N Seed u i)) = 0
     \<and> obfuscate N Seed u i = obfuscate N Seed (u AND 0xFF) i
     \<and> deobfuscate N Seed (projr (obfuscate N Seed u i)) i = Inr (u AND 0xFF)
     \<and> deobfuscate_S N Seed (projr (obfuscate_S N Seed u i)) i = Inr (u AND 0xFF)
     \<and> (deobfuscate N Seed (projr (obfuscate N Seed u i)) i = Inr u \<longleftrightarrow> drop_bit 8 u = 0)
     \<and> (\<exists>enc m'. SecureString N Seed P = Inr enc
            \<and> decrypt N Seed this out (store mem this enc) = Inr m'
            \<and> load m' out (unat N) = map (\<lambda>u. u AND 0xFF) P)"
proof -
  have hi: "drop_bit 8 (ucast (t :: u8) :: 16 word) = 0" for t
    by (rule bit_word_eqI) (auto simp: bit_simps dest: bit_imp_le_length)
  have m: "(0xFF :: 16 word) = mask 8" by (simp add: mask_eq_exp_minus_1)
  have low: "(ucast (u AND 0xFF) :: u8) = ucast u"
    unfolding m by (rule bit_word_eqI) (simp add: bit_simps)
  have ob: "obfuscate N Seed u i = Inr (projr (obfuscate N Seed u i))"
    by (simp add: obfuscate_spec [OF N])
  have ob_S: "obfuscate_S N Seed u i = Inr (projr (obfuscate_S N Seed u i))"
    by (simp add: obfuscate_S_spec [OF N])
  have deob: "deobfuscate N Seed u i = Inr (projr (deobfuscate N Seed u i))"
    by (simp add: deobfuscate_spec [OF N])
  have 1: "drop_bit 8 (projr (obfuscate N Seed u i)) = 0"
    by (simp add: obfuscate_spec [OF N] hi)
  have 2: "drop_bit 8 (projr (deobfuscate N Seed u i)) = 0"
    by (simp add: deobfuscate_spec [OF N] hi)
  have 3: "drop_bit 8 (projr (obfuscate_S N Seed u i)) = 0"
    by (simp add: obfuscate_S_spec [OF N] hi)
  have 4: "drop_bit 8 (projr (deobfuscate_S N Seed u i)) = 0"
    by (simp add: deobfuscate_S_spec [OF N] hi)
  have 5: "obfuscate N Seed u i = obfuscate N Seed (u AND 0xFF) i"
    by (simp only: obfuscate_spec [OF N] low)
  have 6: "deobfuscate N Seed (projr (obfuscate N Seed u i)) i = Inr (u AND 0xFF)"
    using deobfuscate_obfuscate [OF N _ ob] by simp
  have 7: "deobfuscate_S N Seed (projr (obfuscate_S N Seed u i)) i = Inr (u AND 0xFF)"
    using deobfuscate_S_obfuscate_S [OF N _ ob_S] by simp
  have "u AND 0xFF = u \<longleftrightarrow> drop_bit 8 u = 0"
    unfolding m by (simp add: take_bit_eq_self_iff_drop_bit_eq_0 flip: take_bit_eq_mask)
  then have 8: "deobfuscate N Seed (projr (obfuscate N Seed u i)) i = Inr u \<longleftrightarrow> drop_bit 8 u = 0"
    using 6 by simp
  have 9: "\<exists>enc m'. SecureString N Seed P = Inr enc
            \<and> decrypt N Seed this out (store mem this enc) = Inr m'
            \<and> load m' out (unat N) = map (\<lambda>u. u AND 0xFF) P"
    using SecureString_decrypt [OF _ len sep, of Seed mem] by auto
  show ?thesis using ob deob 1 2 3 4 5 6 7 8 9 by blast
qed

theorem wide_units_truncated_witness:
  "(1 :: u64) \<noteq> 0
   \<and> deobfuscate 1 0 (projr (obfuscate 1 0 (0x100 :: 16 word) 0)) 0 = Inr (0x100 AND 0xFF)
   \<and> drop_bit 8 (projr (obfuscate 1 0 (0x100 :: 16 word) 0)) = 0"
proof -
  have h: "(1 :: u64) \<noteq> 0" "length [0x100 :: 16 word] = unat (1 :: u64)"
    "separate 0 1 (unat (1 :: u64))"
    by (simp_all add: separate_def)
  from wide_units_truncated [OF h, of 0 "0x100" 0 "\<lambda>a. 0"] show ?thesis
    using h(1) by blast
qed

section \<open>Claims about the design\<close>

text \<open>
  C6. Key derivation: for every \<open>N \<ge> 1\<close>, \<open>Seed\<close> and position \<open>i\<close>, \<open>obfuscate\<close> is the
  encode pipeline and \<open>deobfuscate\<close> the decode pipeline of the specification, both run
  with the same key triple \<open>k1 = get N Seed 0 i\<close>, \<open>k2 = get N (Seed XOR K1) 0 (N - i - 1)\<close>,
  \<open>k3 = get N (Seed XOR K2) 0 ((i * i) mod N)\<close>; \<open>K1\<close> and \<open>K2\<close> differ from each other
  and from the magic and round constants that \<open>get_byte\<close> uses. For \<open>i < N\<close> the second
  and third key index lie in \<open>[0, N)\<close>. The product \<open>i * i\<close> is 64-bit arithmetic; for
  \<open>i < 2^32\<close> it is the product of the integers.
\<close>

theorem key_derivation:
  assumes N: "N \<noteq> 0"
  shows "obfuscate N Seed c i =
       Inr (ucast (spec_encode 0xA5 (ucast c) (unat i) (get N Seed 0 i)
         (get N (Seed XOR K1) 0 (N - i - 1)) (get N (Seed XOR K2) 0 ((i * i) mod N))))
     \<and> deobfuscate N Seed c i =
       Inr (ucast (spec_decode 0xA5 (ucast c) (unat i) (get N Seed 0 i)
         (get N (Seed XOR K1) 0 (N - i - 1)) (get N (Seed XOR K2) 0 ((i * i) mod N))))
     \<and> K1 \<noteq> K2 \<and> K1 \<noteq> MAGIC \<and> K1 \<noteq> ROUND_CONSTANT \<and> K2 \<noteq> MAGIC \<and> K2 \<noteq> ROUND_CONSTANT
     \<and> get_byte_val S R x =
         (let val = mix (S XOR x * MAGIC) XOR R * ROUND_CONSTANT
          in drop_bit 32 val XOR (val AND 0xFFFFFFFF))
     \<and> (i < N \<longrightarrow> N - i - 1 < N \<and> (i * i) mod N < N)
     \<and> (unat i < 2 ^ 32 \<longrightarrow> unat ((i * i) mod N) = (unat i * unat i) mod unat N)"
proof -
  have cs: "K1 \<noteq> K2" "K1 \<noteq> MAGIC" "K1 \<noteq> ROUND_CONSTANT" "K2 \<noteq> MAGIC" "K2 \<noteq> ROUND_CONSTANT"
    by (simp_all add: K1_def K2_def MAGIC_def ROUND_CONSTANT_def)
  have gb: "get_byte_val S R x =
         (let val = mix (S XOR x * MAGIC) XOR R * ROUND_CONSTANT
          in drop_bit 32 val XOR (val AND 0xFFFFFFFF))"
    by (simp only: get_byte_val_def magic_def MAGIC_def ROUND_CONSTANT_def Let_def)
  have rng: "N - i - 1 < N \<and> (i * i) mod N < N" if "i < N"
    using mirror_index(1) [OF that] sq_mod_lt [OF N] by simp
  have sq: "unat ((i * i) mod N) = (unat i * unat i) mod unat N" if "unat i < 2 ^ 32"
  proof -
    have "unat i * unat i < 2 ^ 32 * 2 ^ 32"
      using that by (intro mult_strict_mono) simp_all
    then have "unat i * unat i < 2 ^ LENGTH(64)" by simp
    then have "unat (i * i) = unat i * unat i" by (simp only: unat_mult_lem)
    then show ?thesis by (simp add: unat_mod)
  qed
  show ?thesis
    using obfuscate_spec [OF N, of Seed c i] deobfuscate_spec [OF N, of Seed c i] cs gb rng sq
    unfolding K1_def K2_def by blast
qed

theorem key_derivation_witness:
  "(6 :: u64) \<noteq> 0 \<and> (2 :: u64) < 6 \<and> unat (2 :: u64) < 2 ^ 32
   \<and> obfuscate 6 1 (0x6C :: u8) 2 =
       Inr (ucast (spec_encode 0xA5 (ucast (0x6C :: u8)) (unat (2 :: u64)) (get 6 1 0 2)
         (get 6 (1 XOR K1) 0 (6 - 2 - 1)) (get 6 (1 XOR K2) 0 ((2 * 2) mod 6))))
   \<and> 6 - 2 - 1 < (6 :: u64)
   \<and> unat (((2 :: u64) * 2) mod 6) = (unat (2 :: u64) * unat (2 :: u64)) mod unat (6 :: u64)"
proof -
  have h: "(6 :: u64) \<noteq> 0" "(2 :: u64) < 6" "unat (2 :: u64) < 2 ^ 32" by simp_all
  from key_derivation [OF h(1), of 1 "0x6C :: u8" 2] show ?thesis using h by blast
qed

text \<open>
  C7. Frame: for every object at \<open>this\<close> and every destination \<open>out\<close> of \<open>N\<close> units that
  does not overlap the object's array, \<open>decrypt\<close> returns, having written
  \<open>out[j] = deobfuscate(encrypted[j], j)\<close> for each \<open>j < N\<close>; every address outside
  \<open>out[0..N)\<close> holds what it held before, so the \<open>encrypted\<close> array is unchanged. The
  only other member function, \<open>size\<close>, takes no memory at all.
\<close>

theorem decrypt_frame:
  fixes mem :: "'c::len mem"
  assumes sep: "separate this out (unat N)"
  shows "\<exists>mem'. decrypt N Seed this out mem = Inr mem'
     \<and> (\<forall>j < unat N. deobfuscate N Seed (mem (this + j)) (of_nat j) = Inr (mem' (out + j)))
     \<and> (\<forall>a. \<not> (out \<le> a \<and> a < out + unat N) \<longrightarrow> mem' a = mem a)
     \<and> load mem' this (unat N) = load mem this (unat N)"
proof -
  let ?g = "\<lambda>(c :: 'c word) j. projr (deobfuscate N Seed c j)"
  have ok: "deobfuscate N Seed c j = Inr (?g c j)" if "j < N" for c :: "'c word" and j
  proof -
    have "N \<noteq> 0" using that by auto
    then show ?thesis by (simp add: deobfuscate_spec)
  qed
  obtain m' where m': "decrypt_loop (deobfuscate N Seed) N this out 0 mem = Inr m'"
    and out: "load m' out (unat N) = map (\<lambda>j. ?g (mem (this + j)) (of_nat j)) [0..<unat N]"
    and frame: "\<forall>a. \<not> (out \<le> a \<and> a < out + unat N) \<longrightarrow> m' a = mem a"
    and obj: "load m' this (unat N) = load mem this (unat N)"
    using decrypt_loop_closed [of N "deobfuscate N Seed" ?g this out mem] ok sep by blast
  have "deobfuscate N Seed (mem (this + j)) (of_nat j) = Inr (m' (out + j))" if j: "j < unat N" for j
  proof -
    have "load m' out (unat N) ! j = ?g (mem (this + j)) (of_nat j)"
      using j by (simp only: out) simp
    then have "m' (out + j) = ?g (mem (this + j)) (of_nat j)"
      using j by (simp add: load_def)
    then show ?thesis using ok [OF of_nat_below(1) [OF j]] by simp
  qed
  then show ?thesis unfolding decrypt_def using m' frame obj by blast
qed

theorem decrypt_frame_witness:
  "separate 0 1 (unat (1 :: u64))
   \<and> (\<exists>mem'. decrypt 1 0 0 1 (\<lambda>a. 0x7F :: u8) = Inr mem'
        \<and> load mem' 0 (unat (1 :: u64)) = load (\<lambda>a. 0x7F) 0 (unat (1 :: u64)))"
proof -
  have h: "separate 0 1 (unat (1 :: u64))" by (simp add: separate_def)
  from decrypt_frame [OF h, of 0 "\<lambda>a. 0x7F :: u8"] show ?thesis using h by blast
qed

text \<open>
  C8. Determinism: the array the constructor's loop produces does not depend on what the
  \<open>encrypted\<close> storage held before the loop: two runs on the same plaintext, \<open>N\<close> and
  seed give the same array, whose unit \<open>j\<close> is \<open>obfuscate\<close> of \<open>P[j]\<close> at \<open>j\<close>, a function
  of \<open>P[j]\<close>, \<open>j\<close>, \<open>N\<close> and the seed alone. \<open>get\<close> is a function of \<open>N\<close>, \<open>Seed\<close>,
  \<open>Round\<close> and \<open>index\<close> and reads nothing else.
\<close>

theorem encoding_deterministic:
  fixes P e1 e2 :: "'c::len word list"
  assumes "length e1 = unat N" and "length e2 = unat N"
  shows "SecureString_loop (obfuscate N Seed) N P 0 e1 = SecureString_loop (obfuscate N Seed) N P 0 e2
     \<and> SecureString N Seed P =
         Inr (map (\<lambda>j. projr (obfuscate N Seed (P ! j) (of_nat j))) [0..<unat N])"
proof -
  let ?f = "\<lambda>(c :: 'c word) j. projr (obfuscate N Seed c j)"
  have ok: "obfuscate N Seed c j = Inr (?f c j)" if "j < N" for c :: "'c word" and j
  proof -
    have "N \<noteq> 0" using that by auto
    then show ?thesis by (simp add: obfuscate_spec)
  qed
  have run: "SecureString_loop (obfuscate N Seed) N P 0 e =
      Inr (map (\<lambda>j. ?f (P ! j) (of_nat j)) [0..<unat N])" if "length e = unat N" for e
    by (rule SecureString_loop_closed [of N "obfuscate N Seed" ?f, OF ok that])
  show ?thesis unfolding SecureString_def using run [OF assms(1)] run [OF assms(2)] run [of "replicate (unat N) 0"]
    by simp
qed

theorem encoding_deterministic_witness:
  "length [0 :: u8] = unat (1 :: u64) \<and> length [5 :: u8] = unat (1 :: u64)
   \<and> SecureString_loop (obfuscate 1 0) 1 [0x41] 0 [0 :: u8] =
      SecureString_loop (obfuscate 1 0) 1 [0x41] 0 [5]"
proof -
  have h: "length [0 :: u8] = unat (1 :: u64)" "length [5 :: u8] = unat (1 :: u64)" by simp_all
  from encoding_deterministic [OF h, of 0 "[0x41]"] show ?thesis using h by blast
qed

text \<open>
  C9. Totality: for \<open>N \<ge> 1\<close> and \<open>i < N\<close>, \<open>obfuscate\<close> and \<open>deobfuscate\<close> return a
  value (the divisor of \<open>(i * i) % N\<close> is not zero), the index \<open>(i * i) mod N\<close> lies below
  \<open>N\<close>, \<open>N - i - 1\<close> does not underflow and lies below \<open>N\<close>, the loop counter does not
  wrap, and the constructor and \<open>decrypt\<close> run to the end and return.
\<close>

theorem total_fault_free:
  fixes c :: "'c::len word" and P :: "'c word list" and mem :: "'c mem"
  assumes N: "N \<noteq> 0" and i: "i < N" and len: "length P = unat N"
  shows "(\<exists>v. obfuscate N Seed c i = Inr v) \<and> (\<exists>v. deobfuscate N Seed c i = Inr v)
     \<and> (i * i) mod N < N
     \<and> N - i - 1 < N \<and> unat (N - i - 1) = unat N - unat i - 1
     \<and> N - i - 1 + 0 < N
     \<and> unat (i + 1) = unat i + 1
     \<and> (\<exists>enc. SecureString N Seed P = Inr enc \<and> length enc = unat N)
     \<and> (\<exists>mem'. decrypt N Seed this out mem = Inr mem')"
proof -
  have 1: "\<exists>v. obfuscate N Seed c i = Inr v" by (simp add: obfuscate_spec [OF N])
  have 2: "\<exists>v. deobfuscate N Seed c i = Inr v" by (simp add: deobfuscate_spec [OF N])
  have 3: "(i * i) mod N < N" by (rule sq_mod_lt [OF N])
  have 4: "N - i - 1 < N" "unat (N - i - 1) = unat N - unat i - 1" "N - i - 1 + 0 < N"
    using mirror_index [OF i] by simp_all
  have 5: "unat (i + 1) = unat i + 1" using unat_succ_lt [OF i] by simp
  have ok: "obfuscate N Seed c j = Inr (projr (obfuscate N Seed c j))" for c :: "'c word" and j
    by (simp add: obfuscate_spec [OF N])
  have 6: "\<exists>enc. SecureString N Seed P = Inr enc \<and> length enc = unat N"
    unfolding SecureString_def
    using SecureString_loop_closed [of N "obfuscate N Seed" "\<lambda>c j. projr (obfuscate N Seed c j)"
        "replicate (unat N) 0" P] ok
    by simp
  have ok': "deobfuscate N Seed c j = Inr (projr (deobfuscate N Seed c j))" for c :: "'c word" and j
    by (simp add: deobfuscate_spec [OF N])
  have 7: "\<exists>mem'. decrypt N Seed this out mem = Inr mem'"
    unfolding decrypt_def
    using decrypt_loop_total [of N "deobfuscate N Seed" "\<lambda>c j. projr (deobfuscate N Seed c j)"] ok'
    by blast
  show ?thesis using 1 2 3 4 5 6 7 by blast
qed

theorem total_fault_free_witness:
  "(6 :: u64) \<noteq> 0 \<and> (2 :: u64) < 6
   \<and> length [0x48, 0x65, 0x6C, 0x6C, 0x6F, 0 :: u8] = unat (6 :: u64)
   \<and> (\<exists>v. obfuscate 6 1 (0x6C :: u8) 2 = Inr v)
   \<and> (\<exists>enc. SecureString 6 1 [0x48, 0x65, 0x6C, 0x6C, 0x6F, 0 :: u8] = Inr enc
         \<and> length enc = unat (6 :: u64))
   \<and> (\<exists>mem'. decrypt 6 1 0 6 (\<lambda>a. 0 :: u8) = Inr mem')"
proof -
  have h: "(6 :: u64) \<noteq> 0" "(2 :: u64) < 6"
    "length [0x48, 0x65, 0x6C, 0x6C, 0x6F, 0 :: u8] = unat (6 :: u64)" by simp_all
  from total_fault_free [OF h, of 1 "0x6C" 0 6 "\<lambda>a. 0"] show ?thesis using h by blast
qed

text \<open>
  C10. Variant equivalence: \<open>get\<close> of \<open>SecureString.hpp\<close> and of
  \<open>secure_string.hpp\<close> return the same byte for all arguments; for \<open>N \<ge> 1\<close> the
  transforms of both headers are the pipeline of the specification on the same key triple,
  with stage-4 constant \<open>0xA5\<close> in \<open>secure_string.hpp\<close> and \<open>0x5A\<close> in
  \<open>SecureString.hpp\<close>, so that on bytes the output of one header is the complement of the
  output of the other; and on bytes each header's \<open>deobfuscate\<close> inverts its own
  \<open>obfuscate\<close>.
\<close>

theorem variant_equivalence:
  fixes b :: u8
  assumes N: "N \<noteq> 0"
  shows "get_S M S R x = get M S R x
     \<and> obfuscate N Seed c i =
       Inr (ucast (spec_encode 0xA5 (ucast c) (unat i) (get N Seed 0 i)
         (get N (Seed XOR K1) 0 (N - i - 1)) (get N (Seed XOR K2) 0 ((i * i) mod N))))
     \<and> obfuscate_S N Seed c i =
       Inr (ucast (spec_encode 0x5A (ucast c) (unat i) (get N Seed 0 i)
         (get N (Seed XOR K1) 0 (N - i - 1)) (get N (Seed XOR K2) 0 ((i * i) mod N))))
     \<and> deobfuscate N Seed c i =
       Inr (ucast (spec_decode 0xA5 (ucast c) (unat i) (get N Seed 0 i)
         (get N (Seed XOR K1) 0 (N - i - 1)) (get N (Seed XOR K2) 0 ((i * i) mod N))))
     \<and> deobfuscate_S N Seed c i =
       Inr (ucast (spec_decode 0x5A (ucast c) (unat i) (get N Seed 0 i)
         (get N (Seed XOR K1) 0 (N - i - 1)) (get N (Seed XOR K2) 0 ((i * i) mod N))))
     \<and> projr (obfuscate_S N Seed b i) = NOT (projr (obfuscate N Seed b i))
     \<and> deobfuscate N Seed (projr (obfuscate N Seed b i)) i = Inr b
     \<and> deobfuscate_S N Seed (projr (obfuscate_S N Seed b i)) i = Inr b"
proof -
  have ob: "obfuscate N Seed b i = Inr (projr (obfuscate N Seed b i))"
    by (simp add: obfuscate_spec [OF N])
  have ob_S: "obfuscate_S N Seed b i = Inr (projr (obfuscate_S N Seed b i))"
    by (simp add: obfuscate_S_spec [OF N])
  have 1: "deobfuscate N Seed (projr (obfuscate N Seed b i)) i = Inr b"
    using deobfuscate_obfuscate [OF N _ ob] by (simp add: and_FF_u8)
  have 2: "deobfuscate_S N Seed (projr (obfuscate_S N Seed b i)) i = Inr b"
    using deobfuscate_S_obfuscate_S [OF N _ ob_S] by (simp add: and_FF_u8)
  have 3: "projr (obfuscate_S N Seed b i) = NOT (projr (obfuscate N Seed b i))"
    by (simp add: obfuscate_spec [OF N] obfuscate_S_spec [OF N] spec_encode_5A)
  show ?thesis
    using get_S_eq [of M S R x] obfuscate_spec [OF N, of Seed c i] obfuscate_S_spec [OF N, of Seed c i]
      deobfuscate_spec [OF N, of Seed c i] deobfuscate_S_spec [OF N, of Seed c i] 1 2 3
    unfolding K1_def K2_def by blast
qed

theorem variant_equivalence_witness:
  "(6 :: u64) \<noteq> 0 \<and> get_S 6 1 0 2 = get 6 1 0 2
   \<and> deobfuscate 6 1 (projr (obfuscate 6 1 (0x6C :: u8) 2)) 2 = Inr 0x6C
   \<and> deobfuscate_S 6 1 (projr (obfuscate_S 6 1 (0x6C :: u8) 2)) 2 = Inr 0x6C"
proof -
  have h: "(6 :: u64) \<noteq> 0" by simp
  from variant_equivalence [OF h, of 6 1 0 2 1 "0x6C :: u8" 2 "0x6C"] show ?thesis using h by blast
qed

end
